theory Spec2Isabelle
  imports Main
begin

section \<open>JSON values, selection trees and the query syntax tree\<close>

text \<open>
  The type \<open>JSONValue\<close> of \<^verbatim>\<open>parser.ts\<close>. Numbers are carried as
  integers: the engine never computes with them, it only passes them through. An object
  is the list of its own properties in key order; a parsed JSON object has no key twice.
  A property read and the operator \<open>in\<close> also find the members that a value inherits
  along its prototype chain; what they find there is a value of the runtime that JSON
  does not have, a built-in function such as \<open>Object.prototype.toString\<close> or a built-in
  object such as \<open>Object.prototype\<close>. \<open>JHost\<close> is such a value, given by its name.
\<close>

datatype json =
    JNull
  | JBool bool
  | JNum int
  | JStr string
  | JArr "json list"
  | JObj "(string \<times> json) list"
  | JHost string

text \<open>
  The selection tree (\<open>Record<string, any>\<close> in the source): every node that
  \<open>processNestedQuery\<close> builds is an object, a leaf is the empty object.
\<close>

datatype sel = Sel "(string \<times> sel) list"

fun entries :: "sel \<Rightarrow> (string \<times> sel) list" where
  "entries (Sel fs) = fs"

text \<open>
  The argument \<open>selections\<close> of \<open>resolveAllRefs\<close> is a tree of the query or, where
  \<open>selections[key]\<close> has read an inherited member, a value of the runtime.
\<close>

datatype selarg = Tree sel | Value json

text \<open>
  What the engine reads of the syntax tree that the external parser returns: the
  operation definitions, their field selections and the nested selection sets.
\<close>

datatype selection = Field string "selection list option" | OtherSelection

datatype definition_node = OperationDefinition "selection list" | OtherDefinition

datatype error =
    MaxDepthExceeded
  | FileNotFound string
  | ParseFailed string
  | CannotNavigate
  | FragmentNotFound
  | QuerySyntaxError
  | TypeError

section \<open>JavaScript primitives used by the engine\<close>

text \<open>
  \<open>o[k] = v\<close> on an object: an existing key keeps its place, a new key goes last.
  JavaScript makes one exception, the key \<open>__proto__\<close>: assigning it defines no
  property but sets the prototype of \<open>o\<close>. The model treats this key as every other
  one; it is exact for the documents that own no key \<open>__proto__\<close> and the queries that
  have no field of this name.
\<close>

fun obj_set :: "(string \<times> 'a) list \<Rightarrow> string \<Rightarrow> 'a \<Rightarrow> (string \<times> 'a) list" where
  "obj_set [] k v = [(k, v)]"
| "obj_set ((k', v') # kvs) k v =
     (if k' = k then (k, v) # kvs else (k', v') # obj_set kvs k v)"

text \<open>\<open>s.split(c)\<close> for a separator of one character.\<close>

fun split_on :: "char \<Rightarrow> string \<Rightarrow> string list" where
  "split_on c [] = [[]]"
| "split_on c (x # xs) =
     (if x = c then [] # split_on c xs
      else (case split_on c xs of
              [] \<Rightarrow> [[x]]
            | w # ws \<Rightarrow> (x # w) # ws))"

text \<open>\<open>s.startsWith("/")\<close> and \<open>s.slice(1)\<close>.\<close>

fun startsWithSlash :: "string \<Rightarrow> bool" where
  "startsWithSlash [] = False"
| "startsWithSlash (x # xs) = (x = CHR ''/'')"

fun slice1 :: "string \<Rightarrow> string" where
  "slice1 [] = []"
| "slice1 (x # xs) = xs"

text \<open>
  An array index as a property name: the canonical decimal numeral of a natural number
  (no sign, no leading zero).
\<close>

definition is_digit :: "char \<Rightarrow> bool" where
  "is_digit ch = (of_char ch \<ge> (48::nat) \<and> of_char ch \<le> (57::nat))"

definition parse_index :: "string \<Rightarrow> nat option" where
  "parse_index s =
     (if s \<noteq> [] \<and> list_all is_digit s \<and> (s = ''0'' \<or> hd s \<noteq> CHR ''0'')
      then Some (foldl (\<lambda>n ch. 10 * n + (of_char ch - 48)) 0 s)
      else None)"

section \<open>The engine\<close>

text \<open>
  The host: \<open>path.resolve\<close>, the file system at an absolute path (no file, a file that
  cannot be read or parsed, or a file holding a JSON value), the query parser of the
  \<open>graphql\<close> package (\<open>None\<close> when it rejects the text), and the prototype chains of
  the JavaScript runtime: the members that a plain object and an array inherit
  (\<open>None\<close> for \<open>undefined\<close>), the properties of a built-in value, whether a built-in
  value is a function (\<open>typeof\<close>) and whether it is an array (\<open>Array.isArray\<close>, as
  \<open>Array.prototype\<close> is).
\<close>

datatype file_entry = Unparsable | Content json

record host =
  path_resolve :: "string \<Rightarrow> string \<Rightarrow> string"
  files :: "string \<Rightarrow> file_entry option"
  parse :: "string \<Rightarrow> definition_node list option"
  inherited_object :: "string \<Rightarrow> json option"
  inherited_array :: "string \<Rightarrow> json option"
  host_property :: "string \<Rightarrow> string \<Rightarrow> json option"
  host_callable :: "string \<Rightarrow> bool"
  host_isArray :: "string \<Rightarrow> bool"

text \<open>
  \<open>typeof v === "object" && v !== null\<close>: arrays, objects and the built-in objects.
  The operator \<open>in\<close> accepts these and the functions, and throws a TypeError on a
  primitive value. \<open>truthy\<close> is the test of \<open>||\<close>.
\<close>

fun is_object :: "host \<Rightarrow> json \<Rightarrow> bool" where
  "is_object h (JArr xs) = True"
| "is_object h (JObj kvs) = True"
| "is_object h (JHost name) = (\<not> host_callable h name)"
| "is_object h v = False"

fun has_properties :: "json \<Rightarrow> bool" where
  "has_properties (JArr xs) = True"
| "has_properties (JObj kvs) = True"
| "has_properties (JHost name) = True"
| "has_properties v = False"

fun truthy :: "json \<Rightarrow> bool" where
  "truthy JNull = False"
| "truthy (JBool b) = b"
| "truthy (JNum n) = (n \<noteq> 0)"
| "truthy (JStr s) = (s \<noteq> [])"
| "truthy v = True"

text \<open>
  \<open>v[k]\<close>, \<open>None\<close> for \<open>undefined\<close>: an own property of an object, an element or
  the length of an array, and otherwise the member of that name that the value inherits;
  a property of a built-in value. The engine reads properties of objects only.
\<close>

fun get_prop :: "host \<Rightarrow> json \<Rightarrow> string \<Rightarrow> json option" where
  "get_prop h (JObj kvs) k =
     (case map_of kvs k of Some v \<Rightarrow> Some v | None \<Rightarrow> inherited_object h k)"
| "get_prop h (JArr xs) k =
     (if k = ''length'' then Some (JNum (int (length xs)))
      else (case parse_index k of
              None \<Rightarrow> inherited_array h k
            | Some i \<Rightarrow> if i < length xs then Some (xs ! i) else inherited_array h k))"
| "get_prop h (JHost name) k = host_property h name k"
| "get_prop h v k = None"

text \<open>\<open>k in v\<close>: a TypeError when \<open>v\<close> is a primitive value.\<close>

definition in_op :: "host \<Rightarrow> string \<Rightarrow> json \<Rightarrow> error + bool" where
  "in_op h k v = (if has_properties v then Inr (get_prop h v k \<noteq> None) else Inl TypeError)"

text \<open>
  The fields of the class \<open>JSONQL\<close>. The constructor alone assigns \<open>rootDir\<close>,
  \<open>maxDepth\<close> and \<open>enableCache\<close>; they form the configuration. The cache and the
  visited set are mutated by the methods and form the state, together with \<open>loads\<close>,
  a ghost log of the absolute paths that \<open>loadJSON\<close> was called for (the call counter
  of the document store).
\<close>

record JSONQLOptions =
  opt_rootDir :: string
  opt_maxDepth :: "int option"
  opt_cache :: "bool option"

record config =
  rootDir :: string
  maxDepth :: int
  enableCache :: bool

record state =
  cache :: "string \<rightharpoonup> json"
  visitedRefs :: "string set"
  loads :: "string list"

text \<open>\<open>options.maxDepth || 10\<close> and \<open>options.cache !== false\<close>.\<close>

definition new_config :: "JSONQLOptions \<Rightarrow> config" where
  "new_config options =
     \<lparr> rootDir = opt_rootDir options,
       maxDepth = (case opt_maxDepth options of
                     None \<Rightarrow> 10
                   | Some n \<Rightarrow> if n = 0 then 10 else n),
       enableCache = (opt_cache options \<noteq> Some False) \<rparr>"

definition new_state :: state where
  "new_state = \<lparr> cache = Map.empty, visitedRefs = {}, loads = [] \<rparr>"

definition loadJSON :: "host \<Rightarrow> config \<Rightarrow> state \<Rightarrow> string \<Rightarrow> (error + json) \<times> state" where
  "loadJSON h c st filePath =
     (let absolutePath =
            path_resolve h (rootDir c)
              (if startsWithSlash filePath then slice1 filePath else filePath);
          st' = st\<lparr>loads := loads st @ [absolutePath]\<rparr>
      in case files h absolutePath of
           None \<Rightarrow> (Inl (FileNotFound absolutePath), st')
         | Some Unparsable \<Rightarrow> (Inl (ParseFailed absolutePath), st')
         | Some (Content v) \<Rightarrow> (Inr v, st'))"

text \<open>The loop of \<open>resolveRef\<close> over the segments of the fragment.\<close>

fun navigate :: "host \<Rightarrow> json \<Rightarrow> string list \<Rightarrow> error + json" where
  "navigate h result [] = Inr result"
| "navigate h result (segment # rest) =
     (if \<not> is_object h result then Inl CannotNavigate
      else (case get_prop h result segment of
              None \<Rightarrow> Inl FragmentNotFound
            | Some v \<Rightarrow> navigate h v rest))"

text \<open>
  The segments of a fragment:
  \<open>fragment.startsWith("/") ? fragment.slice(1).split("/") : fragment.split("/")\<close>.
\<close>

definition fragmentPath :: "string \<Rightarrow> string list" where
  "fragmentPath fragment =
     (if startsWithSlash fragment then split_on CHR ''/'' (slice1 fragment)
      else split_on CHR ''/'' fragment)"

text \<open>
  \<open>resolveRef\<close> of \<^verbatim>\<open>parser.ts\<close>. The destructuring
  \<open>[filePath, fragment] = ref.split("#")\<close> takes the first two parts; a missing fragment
  and an empty one both pass the test \<open>!fragment\<close>. Every \<open>catch\<close> block returns the
  empty object. The compiled file under \<^verbatim>\<open>dist\<close> holds an older version of this
  method, which throws on a cycle, lets the errors of the store and of the fragment escape
  and keeps the mark on a cache hit; the model follows the TypeScript source.
\<close>

definition resolveRef :: "host \<Rightarrow> config \<Rightarrow> state \<Rightarrow> string \<Rightarrow> int \<Rightarrow> (error + json) \<times> state" where
  "resolveRef h c st ref depth =
     (if depth > maxDepth c then (Inl MaxDepthExceeded, st)
      else if ref \<in> visitedRefs st then (Inr (JObj []), st)
      else
        let st1 = st\<lparr>visitedRefs := insert ref (visitedRefs st)\<rparr> in
        case (if enableCache c then cache st1 ref else None) of
          Some cachedValue \<Rightarrow>
            (Inr cachedValue, st1\<lparr>visitedRefs := visitedRefs st1 - {ref}\<rparr>)
        | None \<Rightarrow>
            let parts = split_on CHR ''#'' ref;
                filePath = hd parts;
                fragment = (case tl parts of [] \<Rightarrow> [] | f # _ \<Rightarrow> f)
            in
            if fragment = [] then
              (case loadJSON h c st1 filePath of
                 (Inr result, st2) \<Rightarrow>
                   (Inr result,
                    (if enableCache c then st2\<lparr>cache := (cache st2)(ref \<mapsto> result)\<rparr> else st2)
                      \<lparr>visitedRefs := visitedRefs st2 - {ref}\<rparr>)
               | (Inl e, st2) \<Rightarrow>
                   (Inr (JObj []), st2\<lparr>visitedRefs := visitedRefs st2 - {ref}\<rparr>))
            else
              (case loadJSON h c st1 filePath of
                 (Inl e, st2) \<Rightarrow>
                   (Inr (JObj []), st2\<lparr>visitedRefs := visitedRefs st2 - {ref}\<rparr>)
               | (Inr document, st2) \<Rightarrow>
                   (case navigate h document (fragmentPath fragment) of
                      Inr result \<Rightarrow>
                        (Inr result,
                         (if enableCache c then st2\<lparr>cache := (cache st2)(ref \<mapsto> result)\<rparr> else st2)
                           \<lparr>visitedRefs := visitedRefs st2 - {ref}\<rparr>)
                    | Inl e \<Rightarrow>
                        (Inr (JObj []), st2\<lparr>visitedRefs := visitedRefs st2 - {ref}\<rparr>))))"


text \<open>
  \<open>isRef\<close>: an object that owns a key \<open>$ref\<close> holding a string; \<open>ref_of\<close> reads
  it. No built-in value has a property of this name.
\<close>

fun isRef :: "json \<Rightarrow> bool" where
  "isRef (JObj kvs) = (case map_of kvs ''$ref'' of Some (JStr r) \<Rightarrow> True | _ \<Rightarrow> False)"
| "isRef v = False"

fun ref_of :: "json \<Rightarrow> string" where
  "ref_of (JObj kvs) = (case map_of kvs ''$ref'' of Some (JStr r) \<Rightarrow> r | _ \<Rightarrow> [])"
| "ref_of v = []"

text \<open>
  The two tests of the loop over the keys of a regular object:
  \<open>key in selections || Object.keys(selections).length === 0\<close> and
  \<open>selections[key] || {}\<close>. On a tree of the query, \<open>in\<close> finds the own keys and the
  members that a plain object inherits, and \<open>selections[key]\<close> reads such a member where
  the tree does not own the key: then the sub-selections are a value of the runtime, on
  which the two tests are evaluated in the next call. A built-in value has no enumerable
  key; on a primitive value \<open>in\<close> throws.
\<close>

fun selected :: "host \<Rightarrow> selarg \<Rightarrow> string \<Rightarrow> error + bool" where
  "selected h (Tree t) key =
     Inr (map_of (entries t) key \<noteq> None \<or> inherited_object h key \<noteq> None \<or> entries t = [])"
| "selected h (Value v) key =
     (if \<not> has_properties v then Inl TypeError
      else Inr (get_prop h v key \<noteq> None
                \<or> (case v of JObj kvs \<Rightarrow> kvs = [] | JArr xs \<Rightarrow> xs = [] | _ \<Rightarrow> True)))"

definition or_empty :: "json option \<Rightarrow> selarg" where
  "or_empty x = (case x of None \<Rightarrow> Tree (Sel []) | Some v \<Rightarrow> if truthy v then Value v else Tree (Sel []))"

fun child :: "host \<Rightarrow> selarg \<Rightarrow> string \<Rightarrow> selarg" where
  "child h (Tree t) key =
     (case map_of (entries t) key of
        Some s \<Rightarrow> Tree s
      | None \<Rightarrow> or_empty (inherited_object h key))"
| "child h (Value v) key = or_empty (get_prop h v key)"

text \<open>
  \<open>resolveAllRefs\<close>, with its two loops as functions of their own: \<open>resolveItems\<close>
  is the \<open>map\<close> over the elements of an array and \<open>resolveKeys\<close> the loop over
  \<open>Object.keys(data)\<close>; both receive the depth of their elements, \<open>depth + 1\<close>.
  The elements of an array are expanded from left to right here. The source starts them
  together under \<open>Promise.all\<close>, which returns the results in the order of the elements;
  the calls of \<open>resolveRef\<close> are synchronous and may interleave in another order.
  A built-in function is returned as it is, as every value that is not an object; a
  built-in object has no element and no enumerable key, so that \<open>Array.prototype\<close>
  gives the empty array and every other one the empty object.
\<close>

function resolveAllRefs :: "host \<Rightarrow> config \<Rightarrow> state \<Rightarrow> json \<Rightarrow> selarg \<Rightarrow> int \<Rightarrow> (error + json) \<times> state"
  and resolveItems :: "host \<Rightarrow> config \<Rightarrow> state \<Rightarrow> json list \<Rightarrow> selarg \<Rightarrow> int \<Rightarrow> (error + json list) \<times> state"
  and resolveKeys :: "host \<Rightarrow> config \<Rightarrow> state \<Rightarrow> (string \<times> json) list \<Rightarrow> selarg \<Rightarrow> int
        \<Rightarrow> (string \<times> json) list \<Rightarrow> (error + (string \<times> json) list) \<times> state"
where
  "resolveAllRefs h c st JNull selections depth =
     (if depth > maxDepth c then (Inl MaxDepthExceeded, st) else (Inr JNull, st))"
| "resolveAllRefs h c st (JBool b) selections depth =
     (if depth > maxDepth c then (Inl MaxDepthExceeded, st) else (Inr (JBool b), st))"
| "resolveAllRefs h c st (JNum n) selections depth =
     (if depth > maxDepth c then (Inl MaxDepthExceeded, st) else (Inr (JNum n), st))"
| "resolveAllRefs h c st (JStr s) selections depth =
     (if depth > maxDepth c then (Inl MaxDepthExceeded, st) else (Inr (JStr s), st))"
| "resolveAllRefs h c st (JHost name) selections depth =
     (if depth > maxDepth c then (Inl MaxDepthExceeded, st)
      else if host_callable h name then (Inr (JHost name), st)
      else if host_isArray h name then (Inr (JArr []), st)
      else (Inr (JObj []), st))"
| "resolveAllRefs h c st (JArr items) selections depth =
     (if depth > maxDepth c then (Inl MaxDepthExceeded, st)
      else (case resolveItems h c st items selections (depth + 1) of
              (Inl e, st') \<Rightarrow> (Inl e, st')
            | (Inr ys, st') \<Rightarrow> (Inr (JArr ys), st')))"
| "resolveAllRefs h c st (JObj kvs) selections depth =
     (if depth > maxDepth c then (Inl MaxDepthExceeded, st)
      else if isRef (JObj kvs) then
        (case resolveRef h c st (ref_of (JObj kvs)) depth of
           (Inl e, st') \<Rightarrow> (Inl e, st')
         | (Inr resolved, st') \<Rightarrow> resolveAllRefs h c st' resolved selections (depth + 1))
      else
        (case resolveKeys h c st kvs selections (depth + 1) [] of
           (Inl e, st') \<Rightarrow> (Inl e, st')
         | (Inr result, st') \<Rightarrow> (Inr (JObj result), st')))"
| "resolveItems h c st [] selections d = (Inr [], st)"
| "resolveItems h c st (item # rest) selections d =
     (case resolveAllRefs h c st item selections d of
        (Inl e, st') \<Rightarrow> (Inl e, st')
      | (Inr y, st') \<Rightarrow>
          (case resolveItems h c st' rest selections d of
             (Inl e, st'') \<Rightarrow> (Inl e, st'')
           | (Inr ys, st'') \<Rightarrow> (Inr (y # ys), st'')))"
| "resolveKeys h c st [] selections d result = (Inr result, st)"
| "resolveKeys h c st ((key, val) # rest) selections d result =
     (case selected h selections key of
        Inl e \<Rightarrow> (Inl e, st)
      | Inr False \<Rightarrow> resolveKeys h c st rest selections d result
      | Inr True \<Rightarrow>
          (case resolveAllRefs h c st val (child h selections key) d of
             (Inl e, st') \<Rightarrow> (Inl e, st')
           | (Inr v, st') \<Rightarrow> resolveKeys h c st' rest selections d (obj_set result key v)))"
  by pat_completeness auto
termination
  by (relation "inv_image (less_than <*lex*> less_than)
        (\<lambda>x. case x of
           Inl (h, c, st, data, s, depth) \<Rightarrow> (nat (maxDepth c + 1 - depth), 0)
         | Inr (Inl (h, c, st, items, s, d)) \<Rightarrow> (nat (maxDepth c + 1 - d), Suc (length items))
         | Inr (Inr (h, c, st, kvs, s, d, result)) \<Rightarrow> (nat (maxDepth c + 1 - d), Suc (length kvs)))")
     auto


text \<open>
  \<open>processNestedSelections\<close> fills the object \<open>result\<close> in place; the model returns
  its properties. \<open>processRootSelections\<close> and \<open>processDefinitions\<close> are the two
  loops of \<open>processNestedQuery\<close>.
\<close>

fun processNestedSelections :: "selection list \<Rightarrow> (string \<times> sel) list \<Rightarrow> (string \<times> sel) list" where
  "processNestedSelections [] result = result"
| "processNestedSelections (Field fieldName (Some selectionSet) # rest) result =
     processNestedSelections rest
       (obj_set result fieldName (Sel (processNestedSelections selectionSet [])))"
| "processNestedSelections (Field fieldName None # rest) result =
     processNestedSelections rest (obj_set result fieldName (Sel []))"
| "processNestedSelections (OtherSelection # rest) result =
     processNestedSelections rest result"

fun processRootSelections :: "selection list \<Rightarrow> (string \<times> sel) list \<Rightarrow> (string \<times> sel) list" where
  "processRootSelections [] rootSelections = rootSelections"
| "processRootSelections (Field fieldName (Some selectionSet) # rest) rootSelections =
     processRootSelections rest
       (obj_set rootSelections fieldName (Sel (processNestedSelections selectionSet [])))"
| "processRootSelections (Field fieldName None # rest) rootSelections =
     processRootSelections rest (obj_set rootSelections fieldName (Sel []))"
| "processRootSelections (OtherSelection # rest) rootSelections =
     processRootSelections rest rootSelections"

fun processDefinitions :: "definition_node list \<Rightarrow> (string \<times> sel) list \<Rightarrow> (string \<times> sel) list" where
  "processDefinitions [] rootSelections = rootSelections"
| "processDefinitions (OperationDefinition selections # rest) rootSelections =
     processDefinitions rest (processRootSelections selections rootSelections)"
| "processDefinitions (OtherDefinition # rest) rootSelections =
     processDefinitions rest rootSelections"

definition processNestedQuery :: "host \<Rightarrow> string \<Rightarrow> error + (string \<times> sel) list" where
  "processNestedQuery h queryStr =
     (case parse h queryStr of
        None \<Rightarrow> Inl QuerySyntaxError
      | Some ast \<Rightarrow> Inr (processDefinitions ast []))"

text \<open>
  \<open>filterResponse\<close>; \<open>filterFields\<close> is its loop \<open>for (const key in selections)\<close>
  over the object \<open>data\<close>, with the test \<open>key in data\<close> and the read \<open>data[key]\<close>.
  It is called with the trees of the query: every sub-selection is an object, so the
  first three tests of the inner condition hold and the test on \<open>data[key]\<close> decides.
\<close>

function filterResponse :: "host \<Rightarrow> json \<Rightarrow> sel \<Rightarrow> json"
  and filterFields :: "host \<Rightarrow> json \<Rightarrow> (string \<times> sel) list \<Rightarrow> (string \<times> json) list
        \<Rightarrow> (string \<times> json) list"
where
  "filterResponse h JNull selections = JNull"
| "filterResponse h (JBool b) selections = JBool b"
| "filterResponse h (JNum n) selections = JNum n"
| "filterResponse h (JStr s) selections = JStr s"
| "filterResponse h (JHost name) selections =
     (if host_callable h name then JHost name
      else if host_isArray h name then JArr []
      else JObj (filterFields h (JHost name) (entries selections) []))"
| "filterResponse h (JArr items) selections =
     JArr (map (\<lambda>item. filterResponse h item selections) items)"
| "filterResponse h (JObj kvs) selections =
     JObj (filterFields h (JObj kvs) (entries selections) [])"
| "filterFields h data [] result = result"
| "filterFields h data ((key, subSelections) # rest) result =
     (case get_prop h data key of
        None \<Rightarrow> filterFields h data rest result
      | Some v \<Rightarrow>
          if is_object h v
          then filterFields h data rest (obj_set result key (filterResponse h v subSelections))
          else filterFields h data rest (obj_set result key v))"
  by pat_completeness auto
termination
proof -
  have whole: "size s = Suc (size_list (size_prod (\<lambda>k. 0) size) (entries s))" for s :: sel
    by (cases s) simp
  show ?thesis
    by (relation "inv_image (less_than <*lex*> less_than)
          (\<lambda>x. case x of
             Inl (h, data, s) \<Rightarrow> (size s, Suc (size data))
           | Inr (h, data, ss, result) \<Rightarrow> (size (Sel ss), 0))")
       (auto simp: less_Suc_eq_le size_list_estimation' whole)
qed

text \<open>
  \<open>query\<close>; \<open>queryKeys\<close> is its loop over the top-level keys of the selection tree.
  An error leaves the loop, as the exception does.
\<close>

fun queryKeys :: "host \<Rightarrow> config \<Rightarrow> state \<Rightarrow> json \<Rightarrow> (string \<times> sel) list \<Rightarrow> (string \<times> json) list
        \<Rightarrow> (error + json) \<times> state" where
  "queryKeys h c st rootData [] result = (Inr (JObj result), st)"
| "queryKeys h c st rootData ((key, selections) # rest) result =
     (case in_op h key rootData of
        Inl e \<Rightarrow> (Inl e, st)
      | Inr False \<Rightarrow> queryKeys h c st rootData rest result
      | Inr True \<Rightarrow>
          (case resolveAllRefs h c st (the (get_prop h rootData key)) (Tree selections) 0 of
             (Inl e, st') \<Rightarrow> (Inl e, st')
           | (Inr dataWithResolvedRefs, st') \<Rightarrow>
               queryKeys h c st' rootData rest
                 (obj_set result key (filterResponse h dataWithResolvedRefs selections))))"

definition query :: "host \<Rightarrow> config \<Rightarrow> state \<Rightarrow> string \<Rightarrow> string \<Rightarrow> (error + json) \<times> state" where
  "query h c st entryFile queryStr =
     (case loadJSON h c (st\<lparr>visitedRefs := {}\<rparr>) entryFile of
        (Inl e, st1) \<Rightarrow> (Inl e, st1)
      | (Inr rootData, st1) \<Rightarrow>
          (case processNestedQuery h queryStr of
             Inl e \<Rightarrow> (Inl e, st1)
           | Inr querySelections \<Rightarrow> queryKeys h c st1 rootData querySelections []))"

definition clearCache :: "state \<Rightarrow> state" where
  "clearCache st = st\<lparr>cache := Map.empty\<rparr>"


section \<open>Notions used to state the properties\<close>


text \<open>
  The value a reference denotes in the document set: what \<open>resolveRef\<close> returns on an
  engine without cache and with nothing visited.
\<close>

definition fetch :: "host \<Rightarrow> config \<Rightarrow> string \<Rightarrow> json" where
  "fetch h c ref =
     (case fst (resolveRef h (c\<lparr>enableCache := False\<rparr>) new_state ref (maxDepth c)) of
        Inr v \<Rightarrow> v
      | Inl e \<Rightarrow> JObj [])"

text \<open>
  A cache over an unchanged document set holds, for a reference, the value the reference
  denotes. An engine is consistent between two calls of \<open>resolveRef\<close>: its cache is of
  this kind and no reference is marked as visited.
\<close>

definition cache_ok :: "host \<Rightarrow> config \<Rightarrow> state \<Rightarrow> bool" where
  "cache_ok h c st = (\<forall>ref v. cache st ref = Some v \<longrightarrow> v = fetch h c ref)"

definition consistent :: "host \<Rightarrow> config \<Rightarrow> state \<Rightarrow> bool" where
  "consistent h c st = (cache_ok h c st \<and> visitedRefs st = {})"

text \<open>
  A chain of \<open>n\<close> references: \<open>start\<close> is a reference whose target is a reference,
  and so on \<open>n\<close> times, down to the value \<open>v\<close>, which is not a reference.
\<close>

primrec ref_chain :: "host \<Rightarrow> config \<Rightarrow> json \<Rightarrow> nat \<Rightarrow> json \<Rightarrow> bool" where
  "ref_chain h c start 0 v = (start = v \<and> \<not> isRef v)"
| "ref_chain h c start (Suc n) v =
     (isRef start \<and> ref_chain h c (fetch h c (ref_of start)) n v)"


text \<open>
  The levels of an expansion. \<open>nested h c v s n r v' s'\<close>: the expansion of \<open>v\<close> with
  the selections \<open>s\<close> meets the value \<open>v'\<close>, with the selections \<open>s'\<close>, \<open>n\<close> levels
  below \<open>v\<close>, and \<open>r\<close> of these levels are references. One level leads from a
  reference to its target, from an array to an element, and from an object that is not a
  reference to a selected member.
\<close>

inductive nested :: "host \<Rightarrow> config \<Rightarrow> json \<Rightarrow> selarg \<Rightarrow> nat \<Rightarrow> nat \<Rightarrow> json \<Rightarrow> selarg \<Rightarrow> bool"
  for h :: host and c :: config where
  here: "nested h c v s 0 0 v s"
| through_ref: "isRef v \<Longrightarrow> nested h c (fetch h c (ref_of v)) s n r v' s'
     \<Longrightarrow> nested h c v s (Suc n) (Suc r) v' s'"
| through_item: "x \<in> set xs \<Longrightarrow> nested h c x s n r v' s'
     \<Longrightarrow> nested h c (JArr xs) s (Suc n) r v' s'"
| through_key: "\<not> isRef (JObj kvs) \<Longrightarrow> (k, x) \<in> set kvs \<Longrightarrow> selected h s k = Inr True
     \<Longrightarrow> nested h c x (child h s k) n r v' s'
     \<Longrightarrow> nested h c (JObj kvs) s (Suc n) r v' s'"

text \<open>
  A small document set with a part of the prototype chains of a JavaScript runtime, an
  engine with the default options and engines of depth 1 and 2.
\<close>

definition demo_host :: host where
  "demo_host =
     \<lparr> path_resolve = (\<lambda>root p. root @ p),
       files = map_of
         [(''./books.json'',
             Content (JObj [(''books'', JArr [JObj [(''title'', JStr ''1984''),
                (''author'', JObj [(''$ref'', JStr ''/authors/a1.json'')])]])])),
          (''./authors/a1.json'', Content (JObj [(''name'', JStr ''Orwell'')])),
          (''./a.json'',
             Content (JObj [(''x'', JNum 1), (''ys'', JArr [JStr ''p'', JStr ''q''])])),
          (''./self.json'',
             Content (JObj [(''self'', JObj [(''$ref'', JStr ''/self.json'')])])),
          (''./n.json'', Content (JNum 7)),
          (''./r1.json'', Content (JObj [(''$ref'', JStr ''n.json'')])),
          (''./r2.json'', Content (JObj [(''$ref'', JStr ''r1.json'')])),
          (''./next.json'', Content (JObj [(''next'', JObj [(''$ref'', JStr ''n.json'')])])),
          (''./broken.json'',
             Content (JObj [(''author'', JObj [(''$ref'', JStr ''/nope.json'')])])),
          (''./lib.json'',
             Content (JObj [(''book'', JObj [(''title'', JStr ''1984''),
                (''constructor'', JObj [(''$ref'', JStr ''/authors/a1.json'')])])])),
          (''./bad.json'', Unparsable)],
       parse = map_of
         [(''{ self }'', [OperationDefinition [Field ''self'' None]]),
          (''{ author }'', [OperationDefinition [Field ''author'' None]]),
          (''{ book { title } }'',
             [OperationDefinition [Field ''book'' (Some [Field ''title'' None])]]),
          (''{ books { title author { name } } }'',
             [OperationDefinition [Field ''books'' (Some
                [Field ''title'' None, Field ''author'' (Some [Field ''name'' None])])]])],
       inherited_object = map_of
         [(''constructor'', JHost ''Object''),
          (''toString'', JHost ''Object.prototype.toString''),
          (''hasOwnProperty'', JHost ''Object.prototype.hasOwnProperty''),
          (''valueOf'', JHost ''Object.prototype.valueOf''),
          (''__proto__'', JHost ''Object.prototype'')],
       inherited_array = map_of
         [(''constructor'', JHost ''Array''),
          (''map'', JHost ''Array.prototype.map''),
          (''toString'', JHost ''Array.prototype.toString''),
          (''hasOwnProperty'', JHost ''Object.prototype.hasOwnProperty''),
          (''valueOf'', JHost ''Object.prototype.valueOf''),
          (''__proto__'', JHost ''Array.prototype'')],
       host_property = (\<lambda>name k. map_of
         [((''Object.prototype'', ''constructor''), JHost ''Object''),
          ((''Object.prototype'', ''toString''), JHost ''Object.prototype.toString''),
          ((''Object.prototype'', ''hasOwnProperty''), JHost ''Object.prototype.hasOwnProperty''),
          ((''Object.prototype'', ''valueOf''), JHost ''Object.prototype.valueOf''),
          ((''Object.prototype'', ''__proto__''), JNull),
          ((''Array.prototype'', ''length''), JNum 0),
          ((''Array.prototype'', ''constructor''), JHost ''Array''),
          ((''Array.prototype'', ''map''), JHost ''Array.prototype.map''),
          ((''Array.prototype'', ''toString''), JHost ''Array.prototype.toString''),
          ((''Array.prototype'', ''__proto__''), JHost ''Object.prototype''),
          ((''Object'', ''name''), JStr ''Object''),
          ((''Object'', ''length''), JNum 1),
          ((''Object'', ''prototype''), JHost ''Object.prototype'')] (name, k)),
       host_callable = (\<lambda>name. name \<noteq> ''Object.prototype'' \<and> name \<noteq> ''Array.prototype''),
       host_isArray = (\<lambda>name. name = ''Array.prototype'') \<rparr>"

definition demo_config :: config where
  "demo_config = new_config \<lparr> opt_rootDir = ''./'', opt_maxDepth = None, opt_cache = None \<rparr>"

definition shallow_config :: config where
  "shallow_config =
     new_config \<lparr> opt_rootDir = ''./'', opt_maxDepth = Some 1, opt_cache = None \<rparr>"

definition depth2_config :: config where
  "depth2_config =
     new_config \<lparr> opt_rootDir = ''./'', opt_maxDepth = Some 2, opt_cache = None \<rparr>"

section \<open>The constructor\<close>

lemmas demo_defs = demo_host_def demo_config_def shallow_config_def depth2_config_def
  new_config_def new_state_def

lemmas eval_defs = demo_defs loadJSON_def resolveRef_def or_empty_def Let_def
  fragmentPath_def in_op_def processNestedQuery_def

text \<open>
  C10. An engine constructed with \<open>maxDepth: 0\<close> has the maximum depth 10, as one
  constructed without \<open>maxDepth\<close>; no options give the maximum depth 0.
\<close>

theorem new_config_maxDepth_zero:
  "maxDepth (new_config (options\<lparr>opt_maxDepth := Some 0\<rparr>)) = 10
   \<and> maxDepth (new_config (options\<lparr>opt_maxDepth := None\<rparr>)) = 10
   \<and> maxDepth (new_config options) \<noteq> 0"
  by (simp add: new_config_def split: option.split)


section \<open>The reference resolver\<close>

lemma split_on_nonempty: "split_on ch s \<noteq> []"
  by (induction s) (auto split: list.split)




lemma visitedRefs_resolveRef:
  "visitedRefs (snd (resolveRef h c st ref depth)) =
     (if depth > maxDepth c \<or> ref \<in> visitedRefs st then visitedRefs st
      else visitedRefs st - {ref})"
  by (auto simp: resolveRef_def Let_def loadJSON_def
      split: option.split file_entry.split sum.split prod.split)

text \<open>
  C4, as amended. When the path part of a reference fails to load (no file, or a file
  that is not JSON) and the reference is neither cached nor marked, \<open>resolveRef\<close>
  catches the error of the store and returns the empty object as the resolved value: no
  error is raised, so the query goes on; nothing is cached, the mark is removed and the
  load is counted.
\<close>

theorem resolveRef_load_failure:
  assumes "depth \<le> maxDepth c" and "ref \<notin> visitedRefs st"
    and "\<not> (enableCache c \<and> cache st ref \<noteq> None)"
    and "fst (loadJSON h c st (hd (split_on CHR ''#'' ref))) = Inl e"
  shows "resolveRef h c st ref depth =
           (Inr (JObj []), snd (loadJSON h c st (hd (split_on CHR ''#'' ref))))"
  using assms
  by (auto simp: resolveRef_def Let_def loadJSON_def split: option.splits file_entry.splits)

theorem resolveRef_load_failure_witness:
  "resolveRef demo_host demo_config new_state ''bad.json#/x'' 0 =
     (Inr (JObj []), new_state\<lparr>loads := [''./bad.json'']\<rparr>)
   \<and> fst (query demo_host demo_config new_state ''broken.json'' ''{ author }'')
       = Inr (JObj [(''author'', JObj [])])"
proof -
  have "resolveRef demo_host demo_config new_state ''bad.json#/x'' 0 =
     (Inr (JObj []), new_state\<lparr>loads := [''./bad.json'']\<rparr>)"
    using resolveRef_load_failure [of 0 demo_config "''bad.json#/x''" new_state demo_host
        "ParseFailed ''./bad.json''"]
    by (simp add: demo_defs loadJSON_def Let_def)
  moreover have "fst (query demo_host demo_config new_state ''broken.json'' ''{ author }'')
       = Inr (JObj [(''author'', JObj [])])"
    by (simp add: query_def eval_defs)
  ultimately show ?thesis by simp
qed

text \<open>
  The claim C4 as stated fails: for a file that does not exist \<open>resolveRef\<close> returns a
  value, the empty object, and no error.
\<close>

theorem resolveRef_load_failure_counterexample:
  "\<not> isl (fst (resolveRef demo_host demo_config new_state ''/nope.json'' 0))
   \<and> fst (resolveRef demo_host demo_config new_state ''/nope.json'' 0) = Inr (JObj [])"
  by (simp add: demo_defs resolveRef_def loadJSON_def Let_def)






section \<open>Expansion does not depend on the state of a consistent engine\<close>

text \<open>
  On a consistent engine \<open>resolveRef\<close> returns the value the reference denotes and
  leaves the engine consistent. By induction over the calls of \<open>resolveAllRefs\<close>, the
  value of an expansion is the same from every consistent state, with or without cache.
\<close>

lemma fetch_cfg [simp]: "fetch h (c\<lparr>enableCache := b\<rparr>) ref = fetch h c ref"
  by (simp add: fetch_def)

lemma cache_ok_cfg [simp]: "cache_ok h (c\<lparr>enableCache := b\<rparr>) st = cache_ok h c st"
  by (simp add: cache_ok_def)

lemma consistent_cfg [simp]: "consistent h (c\<lparr>enableCache := b\<rparr>) st = consistent h c st"
  by (simp add: consistent_def)

lemma resolveRef_uncached:
  assumes "depth \<le> maxDepth c" "ref \<notin> visitedRefs st"
    "(if enableCache c then cache st ref else None) = None"
  shows "fst (resolveRef h c st ref depth) = Inr (fetch h c ref)"
proof -
  have nc: "(if enableCache c then cache (st\<lparr>visitedRefs := insert ref (visitedRefs st)\<rparr>) ref else None) = None"
    using assms(3) by (simp split: if_splits)
  have "fst (resolveRef h c st ref depth) =
        fst (resolveRef h (c\<lparr>enableCache := False\<rparr>) new_state ref (maxDepth c))"
    using assms(1,2)
    apply (simp only: resolveRef_def Let_def nc)
    apply (simp add: new_state_def loadJSON_def Let_def split: option.split file_entry.split sum.split)
    done
  moreover have "\<exists>v. fst (resolveRef h c st ref depth) = Inr v"
    using assms(1,2)
    apply (simp only: resolveRef_def Let_def nc)
    apply (simp add: loadJSON_def Let_def split: option.split file_entry.split sum.split)
    done
  ultimately show ?thesis by (auto simp: fetch_def)
qed

lemma resolveRef_fetch:
  assumes "depth \<le> maxDepth c" "ref \<notin> visitedRefs st" "cache_ok h c st"
  shows "fst (resolveRef h c st ref depth) = Inr (fetch h c ref)"
proof (cases "(if enableCache c then cache st ref else None)")
  case None
  then show ?thesis using assms resolveRef_uncached by simp
next
  case (Some v)
  then have "cache st ref = Some v" "enableCache c" by (auto split: if_splits)
  then show ?thesis using assms
    by (simp add: resolveRef_def Let_def cache_ok_def)
qed

lemma resolveRef_cache:
  "cache (snd (resolveRef h c st ref depth)) = cache st
   \<or> (\<exists>v. fst (resolveRef h c st ref depth) = Inr v
       \<and> (if enableCache c then cache st ref else None) = None
       \<and> depth \<le> maxDepth c \<and> ref \<notin> visitedRefs st
       \<and> cache (snd (resolveRef h c st ref depth)) = (cache st)(ref \<mapsto> v))"
  by (auto simp: resolveRef_def Let_def loadJSON_def split: option.split file_entry.split sum.split)

lemma resolveRef_cache_ok:
  assumes "cache_ok h c st"
  shows "cache_ok h c (snd (resolveRef h c st ref depth))"
  using resolveRef_cache [of h c st ref depth] assms resolveRef_uncached [of depth c ref st h]
  by (auto simp: cache_ok_def split: if_splits)

lemma resolveRef_consistent:
  "consistent h c st \<Longrightarrow> consistent h c (snd (resolveRef h c st ref depth))"
  by (simp add: consistent_def resolveRef_cache_ok visitedRefs_resolveRef)

lemma resolveRef_consistent_value:
  "consistent h c st \<Longrightarrow> depth \<le> maxDepth c \<Longrightarrow>
     fst (resolveRef h c st ref depth) = Inr (fetch h c ref)"
  by (simp add: consistent_def resolveRef_fetch)


lemma fst_resolveAllRefs_arr:
  "fst (resolveAllRefs h c st (JArr items) s d) =
     (if d > maxDepth c then Inl MaxDepthExceeded
      else (case fst (resolveItems h c st items s (d + 1)) of
              Inl e \<Rightarrow> Inl e | Inr ys \<Rightarrow> Inr (JArr ys)))"
  by (simp split: prod.split sum.split)

lemma snd_resolveAllRefs_arr:
  "snd (resolveAllRefs h c st (JArr items) s d) =
     (if d > maxDepth c then st else snd (resolveItems h c st items s (d + 1)))"
  by (simp split: prod.split sum.split)

lemma fst_resolveAllRefs_obj:
  "fst (resolveAllRefs h c st (JObj kvs) s d) =
     (if d > maxDepth c then Inl MaxDepthExceeded
      else if isRef (JObj kvs) then
        (case fst (resolveRef h c st (ref_of (JObj kvs)) d) of
           Inl e \<Rightarrow> Inl e
         | Inr resolved \<Rightarrow>
             fst (resolveAllRefs h c (snd (resolveRef h c st (ref_of (JObj kvs)) d)) resolved s (d + 1)))
      else (case fst (resolveKeys h c st kvs s (d + 1) []) of
              Inl e \<Rightarrow> Inl e | Inr result \<Rightarrow> Inr (JObj result)))"
  by (simp split: prod.split sum.split)

lemma snd_resolveAllRefs_obj:
  "snd (resolveAllRefs h c st (JObj kvs) s d) =
     (if d > maxDepth c then st
      else if isRef (JObj kvs) then
        (case fst (resolveRef h c st (ref_of (JObj kvs)) d) of
           Inl e \<Rightarrow> snd (resolveRef h c st (ref_of (JObj kvs)) d)
         | Inr resolved \<Rightarrow>
             snd (resolveAllRefs h c (snd (resolveRef h c st (ref_of (JObj kvs)) d)) resolved s (d + 1)))
      else snd (resolveKeys h c st kvs s (d + 1) []))"
  by (simp split: prod.split sum.split)

lemma fst_resolveItems_cons:
  "fst (resolveItems h c st (item # rest) s d) =
     (case fst (resolveAllRefs h c st item s d) of
        Inl e \<Rightarrow> Inl e
      | Inr y \<Rightarrow>
          (case fst (resolveItems h c (snd (resolveAllRefs h c st item s d)) rest s d) of
             Inl e \<Rightarrow> Inl e | Inr ys \<Rightarrow> Inr (y # ys)))"
  by (simp split: prod.split sum.split)

lemma snd_resolveItems_cons:
  "snd (resolveItems h c st (item # rest) s d) =
     (case fst (resolveAllRefs h c st item s d) of
        Inl e \<Rightarrow> snd (resolveAllRefs h c st item s d)
      | Inr y \<Rightarrow> snd (resolveItems h c (snd (resolveAllRefs h c st item s d)) rest s d))"
  by (simp split: prod.split sum.split)

lemma fst_resolveKeys_cons:
  "fst (resolveKeys h c st ((key, v) # rest) s d result) =
     (case selected h s key of
        Inl e \<Rightarrow> Inl e
      | Inr False \<Rightarrow> fst (resolveKeys h c st rest s d result)
      | Inr True \<Rightarrow>
          (case fst (resolveAllRefs h c st v (child h s key) d) of
             Inl e \<Rightarrow> Inl e
           | Inr y \<Rightarrow>
               fst (resolveKeys h c (snd (resolveAllRefs h c st v (child h s key) d)) rest s d
                      (obj_set result key y))))"
  by (auto split: prod.splits sum.splits bool.splits)

lemma snd_resolveKeys_cons:
  "snd (resolveKeys h c st ((key, v) # rest) s d result) =
     (case selected h s key of
        Inl e \<Rightarrow> st
      | Inr False \<Rightarrow> snd (resolveKeys h c st rest s d result)
      | Inr True \<Rightarrow>
          (case fst (resolveAllRefs h c st v (child h s key) d) of
             Inl e \<Rightarrow> snd (resolveAllRefs h c st v (child h s key) d)
           | Inr y \<Rightarrow>
               snd (resolveKeys h c (snd (resolveAllRefs h c st v (child h s key) d)) rest s d
                      (obj_set result key y))))"
  by (auto split: prod.splits sum.splits bool.splits)

lemma expansion_consistent:
  shows "consistent h c st \<Longrightarrow> consistent h c (snd (resolveAllRefs h c st data s depth))"
    and "consistent h c st \<Longrightarrow> consistent h c (snd (resolveItems h c st items s d))"
    and "consistent h c st \<Longrightarrow> consistent h c (snd (resolveKeys h c st kvs s d result))"
proof (induction h c st data s depth and h c st items s d and h c st kvs s d result
    rule: resolveAllRefs_resolveItems_resolveKeys.induct)
  case (6 h c st items selections depth)
  then show ?case by (simp add: snd_resolveAllRefs_arr del: resolveAllRefs.simps)
next
  case (7 h c st kvs selections depth)
  let ?r = "resolveRef h c st (ref_of (JObj kvs)) depth"
  have c1: "consistent h c (snd ?r)" using 7(3) by (rule resolveRef_consistent)
  show ?case
    using 7(1) [OF _ _ prod.collapse] 7(2) 7(3) c1
    by (auto simp: snd_resolveAllRefs_obj simp del: resolveAllRefs.simps split: sum.split)
next
  case (9 h c st item rest selections d)
  show ?case
    using 9(1) [OF 9(3)] 9(2) [OF prod.collapse]
    by (auto simp: snd_resolveItems_cons simp del: resolveItems.simps split: sum.split)
next
  case (11 h c st key val rest selections d result)
  show ?case
    using 11(1) [OF _ refl] 11(2) [OF _ refl prod.collapse] 11(3) [OF _ refl] 11(4)
    by (auto simp: snd_resolveKeys_cons simp del: resolveKeys.simps split: sum.split bool.split)
qed simp_all

lemma expansion_consistent_cfg:
  "consistent h c st \<Longrightarrow>
     consistent h c (snd (resolveAllRefs h (c\<lparr>enableCache := b\<rparr>) st data s depth))"
  "consistent h c st \<Longrightarrow>
     consistent h c (snd (resolveItems h (c\<lparr>enableCache := b\<rparr>) st items s d))"
  "consistent h c st \<Longrightarrow>
     consistent h c (snd (resolveKeys h (c\<lparr>enableCache := b\<rparr>) st kvs s d result))"
  using expansion_consistent [of h "c\<lparr>enableCache := b\<rparr>" st] by simp_all

lemma resolveRef_consistent_cfg:
  "consistent h c st \<Longrightarrow>
     consistent h c (snd (resolveRef h (c\<lparr>enableCache := b\<rparr>) st ref depth))"
  using resolveRef_consistent [of h "c\<lparr>enableCache := b\<rparr>" st] by simp

lemma resolveRef_value_cfg:
  "consistent h c st \<Longrightarrow> depth \<le> maxDepth c \<Longrightarrow>
     fst (resolveRef h (c\<lparr>enableCache := b\<rparr>) st ref depth) = Inr (fetch h c ref)"
  using resolveRef_consistent_value [of h "c\<lparr>enableCache := b\<rparr>" st depth ref] by simp

lemma expansion_stable:
  shows "consistent h c st \<Longrightarrow> consistent h c st2 \<Longrightarrow>
           fst (resolveAllRefs h (c\<lparr>enableCache := b\<rparr>) st2 data s depth)
             = fst (resolveAllRefs h c st data s depth)"
    and "consistent h c st \<Longrightarrow> consistent h c st2 \<Longrightarrow>
           fst (resolveItems h (c\<lparr>enableCache := b\<rparr>) st2 items s d)
             = fst (resolveItems h c st items s d)"
    and "consistent h c st \<Longrightarrow> consistent h c st2 \<Longrightarrow>
           fst (resolveKeys h (c\<lparr>enableCache := b\<rparr>) st2 kvs s d result)
             = fst (resolveKeys h c st kvs s d result)"
proof (induction h c st data s depth and h c st items s d and h c st kvs s d result
    arbitrary: st2 b and st2 b and st2 b
    rule: resolveAllRefs_resolveItems_resolveKeys.induct)
  case (6 h c st items selections depth)
  then show ?case by (simp add: fst_resolveAllRefs_arr del: resolveAllRefs.simps)
next
  case (7 h c st kvs selections depth)
  let ?c' = "c\<lparr>enableCache := b\<rparr>"
  let ?ref = "ref_of (JObj kvs)"
  show ?case
  proof (cases "depth > maxDepth c")
    case True
    then show ?thesis by (simp add: fst_resolveAllRefs_obj del: resolveAllRefs.simps)
  next
    case deep: False
    show ?thesis
    proof (cases "isRef (JObj kvs)")
      case True
      have v1: "fst (resolveRef h c st ?ref depth) = Inr (fetch h c ?ref)"
        using 7(3) deep by (simp add: resolveRef_consistent_value)
      have v2: "fst (resolveRef h ?c' st2 ?ref depth) = Inr (fetch h c ?ref)"
        using 7(4) deep by (simp add: resolveRef_value_cfg)
      have "fst (resolveAllRefs h ?c' (snd (resolveRef h ?c' st2 ?ref depth))
                   (fetch h c ?ref) selections (depth + 1))
          = fst (resolveAllRefs h c (snd (resolveRef h c st ?ref depth))
                   (fetch h c ?ref) selections (depth + 1))"
        using deep True v1 7(3) 7(4)
        by (intro 7(1) [OF _ _ prod.collapse])
           (simp_all add: resolveRef_consistent resolveRef_consistent_cfg)
      then show ?thesis
        using deep True v1 v2
        by (simp add: fst_resolveAllRefs_obj del: resolveAllRefs.simps)
    next
      case False
      then show ?thesis
        using deep 7(2) [OF _ _ 7(3) 7(4)]
        by (simp add: fst_resolveAllRefs_obj del: resolveAllRefs.simps)
    qed
  qed
next
  case (9 h c st item rest selections d)
  let ?c' = "c\<lparr>enableCache := b\<rparr>"
  have first: "fst (resolveAllRefs h ?c' st2 item selections d)
             = fst (resolveAllRefs h c st item selections d)"
    using 9(1) [OF 9(3) 9(4)] .
  show ?case
  proof (cases "fst (resolveAllRefs h c st item selections d)")
    case (Inl e)
    then show ?thesis using first
      by (simp add: fst_resolveItems_cons del: resolveItems.simps)
  next
    case (Inr y)
    have "fst (resolveItems h ?c' (snd (resolveAllRefs h ?c' st2 item selections d)) rest selections d)
        = fst (resolveItems h c (snd (resolveAllRefs h c st item selections d)) rest selections d)"
      using Inr 9(3) 9(4)
      by (intro 9(2) [OF prod.collapse])
         (simp_all add: expansion_consistent expansion_consistent_cfg)
    then show ?thesis using first Inr
      by (simp add: fst_resolveItems_cons del: resolveItems.simps)
  qed
next
  case (11 h c st key val rest selections d result)
  let ?c' = "c\<lparr>enableCache := b\<rparr>"
  show ?case
  proof (cases "selected h selections key")
    case (Inl e)
    then show ?thesis by (simp add: fst_resolveKeys_cons del: resolveKeys.simps)
  next
    case sel: (Inr chosen)
    show ?thesis
    proof (cases chosen)
      case False
      then show ?thesis
        using sel 11(3) [OF _ refl 11(4) 11(5)]
        by (simp add: fst_resolveKeys_cons del: resolveKeys.simps)
    next
      case True
      have first: "fst (resolveAllRefs h ?c' st2 val (child h selections key) d)
                 = fst (resolveAllRefs h c st val (child h selections key) d)"
        using True sel 11(1) [OF _ refl 11(4) 11(5)] by simp
      show ?thesis
      proof (cases "fst (resolveAllRefs h c st val (child h selections key) d)")
        case (Inl e)
        then show ?thesis using first True sel
          by (simp add: fst_resolveKeys_cons del: resolveKeys.simps)
      next
        case (Inr y)
        have "fst (resolveKeys h ?c' (snd (resolveAllRefs h ?c' st2 val (child h selections key) d))
                     rest selections d (obj_set result key y))
            = fst (resolveKeys h c (snd (resolveAllRefs h c st val (child h selections key) d))
                     rest selections d (obj_set result key y))"
          using Inr True sel 11(4) 11(5)
          by (intro 11(2) [OF _ refl prod.collapse])
             (simp_all add: expansion_consistent expansion_consistent_cfg)
        then show ?thesis using first Inr True sel
          by (simp add: fst_resolveKeys_cons del: resolveKeys.simps)
      qed
    qed
  qed
qed simp_all

lemma c_same [simp]: "c\<lparr>enableCache := enableCache c\<rparr> = (c::config)"
  by simp

lemma expansion_same_cfg:
  "consistent h c st \<Longrightarrow> consistent h c st2 \<Longrightarrow>
     fst (resolveAllRefs h c st2 data s depth) = fst (resolveAllRefs h c st data s depth)"
  using expansion_stable(1) [of h c st st2 "enableCache c" data s depth] by simp



section \<open>The cache\<close>

lemma queryKeys_consistent:
  "consistent h c st \<Longrightarrow> consistent h c (snd (queryKeys h c st rootData ss result))"
proof (induction ss arbitrary: st result)
  case Nil
  then show ?case by simp
next
  case (Cons p ss)
  obtain key selections where p: "p = (key, selections)" by (cases p)
  let ?r = "resolveAllRefs h c st (the (get_prop h rootData key)) (Tree selections) 0"
  have "consistent h c (snd ?r)" using Cons.prems by (rule expansion_consistent)
  then show ?case
    using Cons.IH Cons.prems p
    by (cases ?r) (auto split: sum.split bool.split)
qed

lemma queryKeys_stable:
  "consistent h c st \<Longrightarrow> consistent h c st2 \<Longrightarrow>
     fst (queryKeys h (c\<lparr>enableCache := b\<rparr>) st2 rootData ss result)
       = fst (queryKeys h c st rootData ss result)"
proof (induction ss arbitrary: st st2 result)
  case Nil
  then show ?case by simp
next
  case (Cons p ss)
  obtain key selections where p: "p = (key, selections)" by (cases p)
  let ?c' = "c\<lparr>enableCache := b\<rparr>"
  let ?r = "resolveAllRefs h c st (the (get_prop h rootData key)) (Tree selections) 0"
  let ?r2 = "resolveAllRefs h ?c' st2 (the (get_prop h rootData key)) (Tree selections) 0"
  have first: "fst ?r2 = fst ?r"
    using Cons.prems by (rule expansion_stable)
  have c1: "consistent h c (snd ?r)" using Cons.prems(1) by (rule expansion_consistent)
  have c2: "consistent h c (snd ?r2)" using Cons.prems(2) by (rule expansion_consistent_cfg)
  show ?case
  proof (cases "in_op h key rootData")
    case (Inl e)
    then show ?thesis using p by simp
  next
    case (Inr present)
    show ?thesis
    proof (cases present)
      case False
      then show ?thesis using Inr p Cons.IH [OF Cons.prems] by simp
    next
      case True
      show ?thesis
      proof (cases "fst ?r")
        case (Inl e)
        then show ?thesis using Inr True p first
          by (cases ?r; cases ?r2) auto
      next
        case inr: (Inr y)
        then show ?thesis using Inr True p first Cons.IH [OF c1 c2]
          by (cases ?r; cases ?r2) auto
      qed
    qed
  qed
qed

lemma cache_ok_visited [simp]: "cache_ok h c (st\<lparr>visitedRefs := V\<rparr>) = cache_ok h c st"
  by (simp add: cache_ok_def)

lemma cache_ok_loads [simp]: "cache_ok h c (st\<lparr>loads := l\<rparr>) = cache_ok h c st"
  by (simp add: cache_ok_def)

lemma loadJSON_entry:
  "cache_ok h c st \<Longrightarrow> consistent h c (snd (loadJSON h c (st\<lparr>visitedRefs := {}\<rparr>) p))"
  by (simp add: loadJSON_def Let_def consistent_def split: option.split file_entry.split)

lemma loadJSON_fst_cfg:
  "fst (loadJSON h (c\<lparr>enableCache := b\<rparr>) st p) = fst (loadJSON h c st' p)"
  by (simp add: loadJSON_def Let_def split: option.split file_entry.split)

lemma query_consistent:
  assumes "cache_ok h c st"
  shows "consistent h c (snd (query h c st entryFile queryStr))"
proof -
  let ?l = "loadJSON h c (st\<lparr>visitedRefs := {}\<rparr>) entryFile"
  have "consistent h c (snd ?l)" using assms by (rule loadJSON_entry)
  then show ?thesis
    by (cases ?l) (auto simp: query_def queryKeys_consistent split: sum.split)
qed

lemma query_stable:
  assumes "cache_ok h c st" and "cache_ok h c st2"
  shows "fst (query h (c\<lparr>enableCache := b\<rparr>) st2 entryFile queryStr)
       = fst (query h c st entryFile queryStr)"
proof -
  let ?c' = "c\<lparr>enableCache := b\<rparr>"
  let ?l = "loadJSON h c (st\<lparr>visitedRefs := {}\<rparr>) entryFile"
  let ?l2 = "loadJSON h ?c' (st2\<lparr>visitedRefs := {}\<rparr>) entryFile"
  have same: "fst ?l2 = fst ?l" by (rule loadJSON_fst_cfg)
  have c1: "consistent h c (snd ?l)" using assms(1) by (rule loadJSON_entry)
  have c2: "consistent h c (snd ?l2)"
    using assms(2) loadJSON_entry [of h ?c' st2 entryFile] by simp
  show ?thesis
    using same queryKeys_stable [OF c1 c2]
    by (cases ?l; cases ?l2) (auto simp: query_def split: sum.split)
qed

lemma cache_ok_new_state: "cache_ok h c new_state"
  by (simp add: cache_ok_def new_state_def)

lemma cache_ok_clearCache: "cache_ok h c (clearCache st)"
  by (simp add: cache_ok_def clearCache_def)


text \<open>
  C7. Over an unchanged document set (the same host) the result of \<open>query\<close> does not
  depend on the cache: from a state whose cache holds values that its references denote,
  the result equals the result after \<open>clearCache\<close>, the result of a fresh engine, and
  the result with caching disabled (on this state and on a fresh one). The state after
  the query has a cache of this kind again, as the fresh and the cleared one have, so the
  cache of an engine that has run any number of queries is covered.
\<close>

theorem cache_transparency:
  assumes "cache_ok h c st"
  shows "fst (query h c (clearCache st) entryFile queryStr) = fst (query h c st entryFile queryStr)
       \<and> fst (query h c new_state entryFile queryStr) = fst (query h c st entryFile queryStr)
       \<and> fst (query h (c\<lparr>enableCache := False\<rparr>) st entryFile queryStr)
           = fst (query h c st entryFile queryStr)
       \<and> fst (query h (c\<lparr>enableCache := False\<rparr>) new_state entryFile queryStr)
           = fst (query h c st entryFile queryStr)
       \<and> cache_ok h c (snd (query h c st entryFile queryStr))"
proof -
  have a: "fst (query h c st2 entryFile queryStr) = fst (query h c st entryFile queryStr)"
    if "cache_ok h c st2" for st2
    using query_stable [OF assms that, of "enableCache c"] by simp
  show ?thesis
    using a [OF cache_ok_clearCache] a [OF cache_ok_new_state]
      query_stable [OF assms assms, of False] query_stable [OF assms cache_ok_new_state, of False]
      query_consistent [OF assms]
    by (simp add: consistent_def)
qed

theorem cache_transparency_witness:
  "cache (snd (query demo_host demo_config new_state ''books.json''
             ''{ books { title author { name } } }'')) ''/authors/a1.json''
     = Some (JObj [(''name'', JStr ''Orwell'')])
   \<and> fst (query demo_host demo_config
        (snd (query demo_host demo_config new_state ''books.json''
               ''{ books { title author { name } } }''))
        ''books.json'' ''{ books { title author { name } } }'')
     = Inr (JObj [(''books'', JArr [JObj [(''title'', JStr ''1984''),
              (''author'', JObj [(''name'', JStr ''Orwell'')])]])])
   \<and> fst (query demo_host demo_config
        (clearCache (snd (query demo_host demo_config new_state ''books.json''
               ''{ books { title author { name } } }'')))
        ''books.json'' ''{ books { title author { name } } }'')
     = Inr (JObj [(''books'', JArr [JObj [(''title'', JStr ''1984''),
              (''author'', JObj [(''name'', JStr ''Orwell'')])]])])
   \<and> loads (snd (query demo_host demo_config
        (snd (query demo_host demo_config new_state ''books.json''
               ''{ books { title author { name } } }''))
        ''books.json'' ''{ books { title author { name } } }''))
     = [''./books.json'', ''./authors/a1.json'', ''./books.json'']
   \<and> loads (snd (query demo_host demo_config
        (clearCache (snd (query demo_host demo_config new_state ''books.json''
               ''{ books { title author { name } } }'')))
        ''books.json'' ''{ books { title author { name } } }''))
     = [''./books.json'', ''./authors/a1.json'', ''./books.json'', ''./authors/a1.json'']"
proof -
  let ?q = "''{ books { title author { name } } }''"
  let ?st1 = "snd (query demo_host demo_config new_state ''books.json'' ?q)"
  have ok0: "cache_ok demo_host demo_config new_state"
    by (simp add: cache_ok_def new_state_def)
  have ok1: "cache_ok demo_host demo_config ?st1"
    using cache_transparency [OF ok0, of "''books.json''" ?q] by simp
  have fresh: "fst (query demo_host demo_config new_state ''books.json'' ?q)
     = Inr (JObj [(''books'', JArr [JObj [(''title'', JStr ''1984''),
              (''author'', JObj [(''name'', JStr ''Orwell'')])]])])"
    by (simp add: query_def eval_defs)
  have pop: "cache ?st1 ''/authors/a1.json'' = Some (JObj [(''name'', JStr ''Orwell'')])"
    by (simp add: query_def eval_defs)
  have hit: "loads (snd (query demo_host demo_config ?st1 ''books.json'' ?q))
     = [''./books.json'', ''./authors/a1.json'', ''./books.json'']"
    by (simp add: query_def eval_defs)
  have miss: "loads (snd (query demo_host demo_config (clearCache ?st1) ''books.json'' ?q))
     = [''./books.json'', ''./authors/a1.json'', ''./books.json'', ''./authors/a1.json'']"
    by (simp add: query_def eval_defs clearCache_def)
  show ?thesis
    using cache_transparency [OF ok1, of "''books.json''" ?q] fresh pop hit miss by simp
qed


section \<open>The visited set\<close>

lemma resolveRef_unvisited:
  "visitedRefs st = {} \<Longrightarrow> visitedRefs (snd (resolveRef h c st ref depth)) = {}"
  by (simp add: visitedRefs_resolveRef)

lemma expansion_unvisited:
  shows "visitedRefs st = {} \<Longrightarrow> visitedRefs (snd (resolveAllRefs h c st data s depth)) = {}"
    and "visitedRefs st = {} \<Longrightarrow> visitedRefs (snd (resolveItems h c st items s d)) = {}"
    and "visitedRefs st = {} \<Longrightarrow> visitedRefs (snd (resolveKeys h c st kvs s d result)) = {}"
proof (induction h c st data s depth and h c st items s d and h c st kvs s d result
    rule: resolveAllRefs_resolveItems_resolveKeys.induct)
  case (6 h c st items selections depth)
  then show ?case by (simp add: snd_resolveAllRefs_arr del: resolveAllRefs.simps)
next
  case (7 h c st kvs selections depth)
  let ?r = "resolveRef h c st (ref_of (JObj kvs)) depth"
  have c1: "visitedRefs (snd ?r) = {}" using 7(3) by (rule resolveRef_unvisited)
  show ?case
    using 7(1) [OF _ _ prod.collapse] 7(2) 7(3) c1
    by (auto simp: snd_resolveAllRefs_obj simp del: resolveAllRefs.simps split: sum.split)
next
  case (9 h c st item rest selections d)
  show ?case
    using 9(1) [OF 9(3)] 9(2) [OF prod.collapse]
    by (auto simp: snd_resolveItems_cons simp del: resolveItems.simps split: sum.split)
next
  case (11 h c st key val rest selections d result)
  show ?case
    using 11(1) [OF _ refl] 11(2) [OF _ refl prod.collapse] 11(3) [OF _ refl] 11(4)
    by (auto simp: snd_resolveKeys_cons simp del: resolveKeys.simps split: sum.split bool.split)
qed simp_all

lemma queryKeys_unvisited:
  "visitedRefs st = {} \<Longrightarrow> visitedRefs (snd (queryKeys h c st rootData ss result)) = {}"
proof (induction ss arbitrary: st result)
  case Nil
  then show ?case by simp
next
  case (Cons p ss)
  obtain key selections where p: "p = (key, selections)" by (cases p)
  let ?r = "resolveAllRefs h c st (the (get_prop h rootData key)) (Tree selections) 0"
  have "visitedRefs (snd ?r) = {}" using Cons.prems by (rule expansion_unvisited)
  then show ?case
    using Cons.IH Cons.prems p
    by (cases ?r) (auto split: sum.split bool.split)
qed

lemma query_unvisited: "visitedRefs (snd (query h c st entryFile queryStr)) = {}"
proof -
  let ?l = "loadJSON h c (st\<lparr>visitedRefs := {}\<rparr>) entryFile"
  have "visitedRefs (snd ?l) = {}"
    by (simp add: loadJSON_def Let_def split: option.split file_entry.split)
  then show ?thesis
    by (cases ?l) (auto simp: query_def queryKeys_unvisited split: sum.split)
qed

text \<open>
  C3. The visited set is private to the engine; \<open>query\<close> clears it and nothing but
  \<open>resolveRef\<close> writes it. A call of \<open>resolveRef\<close> that is entered with \<open>ref\<close>
  unmarked returns, on every exit path (success or failure), with \<open>ref\<close> unmarked; one
  that is entered with the empty set returns with the empty set. Every call that a query
  makes is of this kind: the expansion keeps the set empty between the calls, and it is
  empty after the query. So the path that detects a cycle is never taken, and no call
  returns with \<open>ref\<close> in the visited set.
\<close>

theorem visited_mark_cleared:
  "(ref \<notin> visitedRefs st \<longrightarrow> ref \<notin> visitedRefs (snd (resolveRef h c st ref depth)))
   \<and> (visitedRefs st = {} \<longrightarrow> visitedRefs (snd (resolveRef h c st ref depth)) = {})
   \<and> (visitedRefs st = {} \<longrightarrow> visitedRefs (snd (resolveAllRefs h c st data s depth)) = {})
   \<and> visitedRefs (snd (query h c st entryFile queryStr)) = {}"
  by (simp add: visitedRefs_resolveRef expansion_unvisited query_unvisited)

theorem visited_mark_cleared_witness:
  "''a.json#/missing'' \<notin> visitedRefs (snd (resolveRef demo_host demo_config
       (new_state\<lparr>visitedRefs := {''other.json''}\<rparr>) ''a.json#/missing'' 0))
   \<and> visitedRefs (snd (resolveRef demo_host demo_config new_state ''/nope.json'' 0)) = {}
   \<and> visitedRefs (snd (resolveAllRefs demo_host demo_config new_state
         (JObj [(''$ref'', JStr ''/self.json'')]) (Tree (Sel [])) 0)) = {}
   \<and> fst (resolveAllRefs demo_host demo_config new_state
         (JObj [(''$ref'', JStr ''/self.json'')]) (Tree (Sel [])) 0) = Inl MaxDepthExceeded
   \<and> visitedRefs (snd (query demo_host demo_config
         (new_state\<lparr>visitedRefs := {''a.json''}\<rparr>) ''books.json''
         ''{ books { title author { name } } }'')) = {}"
proof -
  have fail: "fst (resolveAllRefs demo_host demo_config new_state
         (JObj [(''$ref'', JStr ''/self.json'')]) (Tree (Sel [])) 0) = Inl MaxDepthExceeded"
    by (simp add: eval_defs)
  show ?thesis
    using visited_mark_cleared [of "''a.json#/missing''"
        "new_state\<lparr>visitedRefs := {''other.json''}\<rparr>" demo_host demo_config 0
        JNull "Tree (Sel [])" "''books.json''" "''{ books { title author { name } } }''"]
      visited_mark_cleared [of "''/nope.json''" new_state demo_host demo_config 0
        "JObj [(''$ref'', JStr ''/self.json'')]" "Tree (Sel [])"
        "''books.json''" "''{ books { title author { name } } }''"]
      visited_mark_cleared [of "''x''" "new_state\<lparr>visitedRefs := {''a.json''}\<rparr>"
        demo_host demo_config 0 JNull "Tree (Sel [])"
        "''books.json''" "''{ books { title author { name } } }''"]
      fail
    by (simp add: new_state_def)
qed

section \<open>Arrays\<close>

lemma snd_resolveItems_take:
  "fst (resolveAllRefs h c st item s d) = Inr y \<Longrightarrow>
     snd (resolveItems h c st (item # take i rest) s d)
       = snd (resolveItems h c (snd (resolveAllRefs h c st item s d)) (take i rest) s d)"
  by (simp add: snd_resolveItems_cons del: resolveItems.simps)

lemma resolveItems_elements:
  "fst (resolveItems h c st items s d) = Inr ys \<Longrightarrow>
     length ys = length items
     \<and> (\<forall>i<length items.
           fst (resolveAllRefs h c (snd (resolveItems h c st (take i items) s d)) (items ! i) s d)
             = Inr (ys ! i))"
proof (induction items arbitrary: st ys)
  case Nil
  then show ?case by simp
next
  case (Cons item rest)
  let ?r = "resolveAllRefs h c st item s d"
  from Cons.prems obtain y ys' where
    y: "fst ?r = Inr y" and ys': "fst (resolveItems h c (snd ?r) rest s d) = Inr ys'"
    and ys: "ys = y # ys'"
    by (auto simp: fst_resolveItems_cons simp del: resolveItems.simps split: sum.splits)
  note IH = Cons.IH [OF ys']
  show ?case
  proof (intro conjI allI impI)
    show "length ys = length (item # rest)" using IH ys by simp
  next
    fix i assume i: "i < length (item # rest)"
    show "fst (resolveAllRefs h c (snd (resolveItems h c st (take i (item # rest)) s d))
                ((item # rest) ! i) s d) = Inr (ys ! i)"
    proof (cases i)
      case 0
      then show ?thesis using y ys by simp
    next
      case (Suc j)
      then have "j < length rest" using i by simp
      then show ?thesis
        using IH ys Suc snd_resolveItems_take [OF y, of j rest]
        by (simp del: resolveItems.simps)
    qed
  qed
qed

lemma resolveItems_error:
  "fst (resolveItems h c st items s d) = Inl e \<Longrightarrow>
     \<exists>i<length items.
        fst (resolveAllRefs h c (snd (resolveItems h c st (take i items) s d)) (items ! i) s d)
          = Inl e"
proof (induction items arbitrary: st)
  case Nil
  then show ?case by simp
next
  case (Cons item rest)
  let ?r = "resolveAllRefs h c st item s d"
  show ?case
  proof (cases "fst ?r")
    case (Inl e')
    then have "e' = e" using Cons.prems
      by (simp add: fst_resolveItems_cons del: resolveItems.simps)
    then have "fst (resolveAllRefs h c (snd (resolveItems h c st (take 0 (item # rest)) s d))
                 ((item # rest) ! 0) s d) = Inl e"
      using Inl by simp
    then show ?thesis by blast
  next
    case (Inr y)
    then have "fst (resolveItems h c (snd ?r) rest s d) = Inl e"
      using Cons.prems
      by (auto simp: fst_resolveItems_cons simp del: resolveItems.simps split: sum.splits)
    from Cons.IH [OF this] obtain j where j: "j < length rest"
      and "fst (resolveAllRefs h c (snd (resolveItems h c (snd ?r) (take j rest) s d)) (rest ! j) s d)
             = Inl e"
      by blast
    then have "fst (resolveAllRefs h c (snd (resolveItems h c st (take (Suc j) (item # rest)) s d))
                 ((item # rest) ! Suc j) s d) = Inl e"
      using snd_resolveItems_take [OF Inr, of j rest] by (simp del: resolveItems.simps)
    moreover have "Suc j < length (item # rest)" using j by simp
    ultimately show ?thesis by blast
  qed
qed


text \<open>
  C9. When the expansion of an array \<open>A\<close> returns, it returns an array of the length of
  \<open>A\<close> whose \<open>i\<close>-th element is the expansion, one level deeper and with the same
  selection tree, of the \<open>i\<close>-th element of \<open>A\<close>, run in the state that the elements
  before it have left; on a consistent engine this is the expansion of that element from
  the state at entry as well. The expansion fails only when the depth is exceeded or the
  expansion of an element fails.
\<close>

theorem resolveAllRefs_array:
  "(fst (resolveAllRefs h c st (JArr items) s depth) = Inr r \<longrightarrow>
      (\<exists>ys. r = JArr ys \<and> length ys = length items
         \<and> (\<forall>i<length items.
               fst (resolveAllRefs h c (snd (resolveItems h c st (take i items) s (depth + 1)))
                      (items ! i) s (depth + 1)) = Inr (ys ! i))
         \<and> (consistent h c st \<longrightarrow>
              (\<forall>i<length items.
                 fst (resolveAllRefs h c st (items ! i) s (depth + 1)) = Inr (ys ! i)))))
   \<and> (fst (resolveAllRefs h c st (JArr items) s depth) = Inl e \<longrightarrow>
        maxDepth c < depth
        \<or> (\<exists>i<length items.
              fst (resolveAllRefs h c (snd (resolveItems h c st (take i items) s (depth + 1)))
                     (items ! i) s (depth + 1)) = Inl e))"
proof (intro conjI impI)
  assume ok: "fst (resolveAllRefs h c st (JArr items) s depth) = Inr r"
  then obtain ys where r: "r = JArr ys"
    and ys: "fst (resolveItems h c st items s (depth + 1)) = Inr ys"
    by (auto simp: fst_resolveAllRefs_arr simp del: resolveAllRefs.simps
        split: if_splits sum.splits)
  note el = resolveItems_elements [OF ys]
  have "\<forall>i<length items. fst (resolveAllRefs h c st (items ! i) s (depth + 1)) = Inr (ys ! i)"
    if cons: "consistent h c st"
  proof (intro allI impI)
    fix i assume "i < length items"
    then have "fst (resolveAllRefs h c (snd (resolveItems h c st (take i items) s (depth + 1)))
                 (items ! i) s (depth + 1)) = Inr (ys ! i)"
      using el by simp
    moreover have "consistent h c (snd (resolveItems h c st (take i items) s (depth + 1)))"
      using cons by (rule expansion_consistent)
    ultimately show "fst (resolveAllRefs h c st (items ! i) s (depth + 1)) = Inr (ys ! i)"
      using expansion_same_cfg [OF cons] by metis
  qed
  then show "\<exists>ys. r = JArr ys \<and> length ys = length items
         \<and> (\<forall>i<length items.
               fst (resolveAllRefs h c (snd (resolveItems h c st (take i items) s (depth + 1)))
                      (items ! i) s (depth + 1)) = Inr (ys ! i))
         \<and> (consistent h c st \<longrightarrow>
              (\<forall>i<length items.
                 fst (resolveAllRefs h c st (items ! i) s (depth + 1)) = Inr (ys ! i)))"
    using r el by blast
next
  assume "fst (resolveAllRefs h c st (JArr items) s depth) = Inl e"
  then show "maxDepth c < depth
        \<or> (\<exists>i<length items.
              fst (resolveAllRefs h c (snd (resolveItems h c st (take i items) s (depth + 1)))
                     (items ! i) s (depth + 1)) = Inl e)"
    using resolveItems_error [of h c st items s "depth + 1" e]
    by (auto simp: fst_resolveAllRefs_arr simp del: resolveAllRefs.simps
        split: if_splits sum.splits)
qed

theorem resolveAllRefs_array_witness:
  "\<exists>ys. JArr [JNum 1, JObj [(''name'', JStr ''Orwell'')], JStr ''z''] = JArr ys
      \<and> length ys = 3
      \<and> fst (resolveAllRefs demo_host demo_config new_state (JNum 1) (Tree (Sel [])) 1) = Inr (ys ! 0)
      \<and> fst (resolveAllRefs demo_host demo_config new_state
                (JObj [(''$ref'', JStr ''/authors/a1.json'')]) (Tree (Sel [])) 1) = Inr (ys ! 1)
      \<and> fst (resolveAllRefs demo_host demo_config new_state (JStr ''z'') (Tree (Sel [])) 1) = Inr (ys ! 2)"
proof -
  let ?items = "[JNum 1, JObj [(''$ref'', JStr ''/authors/a1.json'')], JStr ''z'']"
  have run: "fst (resolveAllRefs demo_host demo_config new_state (JArr ?items) (Tree (Sel [])) 0)
      = Inr (JArr [JNum 1, JObj [(''name'', JStr ''Orwell'')], JStr ''z''])"
    by (simp add: eval_defs)
  have cons: "consistent demo_host demo_config new_state"
    by (simp add: consistent_def cache_ok_def new_state_def)
  from resolveAllRefs_array [of demo_host demo_config new_state ?items "Tree (Sel [])" 0
      "JArr [JNum 1, JObj [(''name'', JStr ''Orwell'')], JStr ''z'']"] run cons
  obtain ys where ys: "JArr [JNum 1, JObj [(''name'', JStr ''Orwell'')], JStr ''z''] = JArr ys"
    and len: "length ys = length ?items"
    and el: "\<forall>i<length ?items.
           fst (resolveAllRefs demo_host demo_config new_state (?items ! i) (Tree (Sel [])) (0 + 1))
             = Inr (ys ! i)"
    by blast
  show ?thesis
    using ys len el [rule_format, of 0] el [rule_format, of 1] el [rule_format, of 2]
    by (intro exI [of _ ys]) (simp del: resolveAllRefs.simps)
qed

section \<open>The depth bound\<close>

lemma too_deep:
  "maxDepth c < depth \<Longrightarrow> fst (resolveAllRefs h c st data s depth) = Inl MaxDepthExceeded"
  by (cases data) simp_all


lemma isRef_obj: "isRef v \<Longrightarrow> \<exists>kvs. v = JObj kvs"
  by (cases v) simp_all

lemma ref_step:
  assumes "consistent h c st" and "isRef start" and "d \<le> maxDepth c"
  shows "fst (resolveAllRefs h c st start s d)
       = fst (resolveAllRefs h c st (fetch h c (ref_of start)) s (d + 1))"
proof -
  obtain kvs where start: "start = JObj kvs" using assms(2) isRef_obj by blast
  let ?r = "resolveRef h c st (ref_of start) d"
  have v: "fst ?r = Inr (fetch h c (ref_of start))"
    using assms(1,3) by (rule resolveRef_consistent_value)
  have "consistent h c (snd ?r)" using assms(1) by (rule resolveRef_consistent)
  then have "fst (resolveAllRefs h c (snd ?r) (fetch h c (ref_of start)) s (d + 1))
           = fst (resolveAllRefs h c st (fetch h c (ref_of start)) s (d + 1))"
    using expansion_same_cfg [OF assms(1)] by blast
  then show ?thesis
    using assms(2,3) v start
    by (simp add: fst_resolveAllRefs_obj del: resolveAllRefs.simps)
qed
















lemma ref_chain_nested: "ref_chain h c start n v \<Longrightarrow> nested h c start s n n v s"
proof (induction n arbitrary: start)
  case 0
  then show ?case by (auto intro: nested.here)
next
  case (Suc n)
  then show ?case by (auto intro: nested.through_ref)
qed




section \<open>Lazy expansion\<close>

lemma resolveKeys_skip:
  "selected h s k = Inr False \<Longrightarrow>
     resolveKeys h c st (kvs1 @ (k, v) # kvs2) s d result
       = resolveKeys h c st (kvs1 @ kvs2) s d result"
proof (induction kvs1 arbitrary: st result)
  case Nil
  then show ?case by simp
next
  case (Cons p kvs1)
  obtain k' v' where p: "p = (k', v')" by (cases p)
  show ?case using Cons p by (simp split: prod.split sum.split bool.split)
qed

lemma map_of_without:
  "distinct (map fst (kvs1 @ (k, v) # kvs2)) \<Longrightarrow>
     map_of (kvs1 @ kvs2) k' = (if k' = k then None else map_of (kvs1 @ (k, v) # kvs2) k')"
proof (induction kvs1)
  case Nil
  then show ?case by (simp add: map_of_eq_None_iff)
next
  case (Cons p kvs1)
  then show ?case by (cases p) (auto simp del: map_of_append)
qed

lemma map_of_here:
  "distinct (map fst (kvs1 @ (k, v) # kvs2)) \<Longrightarrow> map_of (kvs1 @ (k, v) # kvs2) k = Some v"
proof (induction kvs1)
  case Nil
  then show ?case by simp
next
  case (Cons p kvs1)
  then show ?case by (cases p) (auto simp del: map_of_append)
qed

lemma isRef_without:
  assumes "distinct (map fst (kvs1 @ (k, v) # kvs2))" and "isRef v"
  shows "isRef (JObj (kvs1 @ (k, v) # kvs2)) = isRef (JObj (kvs1 @ kvs2))"
    and "ref_of (JObj (kvs1 @ (k, v) # kvs2)) = ref_of (JObj (kvs1 @ kvs2))"
proof -
  obtain fs where v: "v = JObj fs" using assms(2) isRef_obj by blast
  have here: "map_of (kvs1 @ (k, v) # kvs2) k = Some v"
    using assms(1) by (rule map_of_here)
  show "isRef (JObj (kvs1 @ (k, v) # kvs2)) = isRef (JObj (kvs1 @ kvs2))"
    using map_of_without [OF assms(1), of "''$ref''"] here v
    by (cases "''$ref'' = k") (simp_all del: map_of_append)
  show "ref_of (JObj (kvs1 @ (k, v) # kvs2)) = ref_of (JObj (kvs1 @ kvs2))"
    using map_of_without [OF assms(1), of "''$ref''"] here v
    by (cases "''$ref'' = k") (simp_all del: map_of_append)
qed

text \<open>
  A key that a non-empty tree does not own and that is no member of \<open>Object.prototype\<close>
  is skipped before its value is read: the expansion, the state and the log of loads
  are those of the object without this entry.
\<close>

lemma own_unselected_key_skipped:
  assumes "isRef v" and "entries t \<noteq> []" and "map_of (entries t) k = None"
    and "inherited_object h k = None"
    and "distinct (map fst (kvs1 @ (k, v) # kvs2))"
  shows "resolveAllRefs h c st (JObj (kvs1 @ (k, v) # kvs2)) (Tree t) depth
           = resolveAllRefs h c st (JObj (kvs1 @ kvs2)) (Tree t) depth"
proof -
  have "selected h (Tree t) k = Inr False" using assms(2,3,4) by simp
  then have "resolveKeys h c st (kvs1 @ (k, v) # kvs2) (Tree t) (depth + 1) []
           = resolveKeys h c st (kvs1 @ kvs2) (Tree t) (depth + 1) []"
    by (rule resolveKeys_skip)
  then show ?thesis
    using isRef_without [OF assms(5,1)] by (simp del: isRef.simps ref_of.simps)
qed

text \<open>
  C6. The loop over the keys of an object tests \<open>key in selections\<close>, and \<open>in\<close>
  also finds the members that the selection object inherits from \<open>Object.prototype\<close>.
  A key of a document that bears the name of such a member, \<open>constructor\<close> for one,
  passes the test although the query does not select it. The document
  \<open>{"book": {"title": "1984", "constructor": {"$ref": "/authors/a1.json"}}}\<close> queried
  with \<open>{ book { title } }\<close>: the tree \<open>{title: {}}\<close> is not empty and does not own
  \<open>constructor\<close>, yet the expansion resolves the reference under this key and loads
  \<^verbatim>\<open>authors/a1.json\<close>; the projection then drops the key, so the load is the only
  trace in the result of the query.
\<close>

theorem inherited_key_resolved:
  "map_of (entries (Sel [(''title'', Sel [])])) ''constructor'' = None
   \<and> resolveAllRefs demo_host demo_config new_state
        (JObj [(''title'', JStr ''1984''),
               (''constructor'', JObj [(''$ref'', JStr ''/authors/a1.json'')])])
        (Tree (Sel [(''title'', Sel [])])) 0
      = (Inr (JObj [(''title'', JStr ''1984''),
                    (''constructor'', JObj [(''name'', JStr ''Orwell'')])]),
         new_state\<lparr>cache := [''/authors/a1.json'' \<mapsto> JObj [(''name'', JStr ''Orwell'')]],
                    loads := [''./authors/a1.json'']\<rparr>)
   \<and> fst (query demo_host demo_config new_state ''lib.json'' ''{ book { title } }'')
      = Inr (JObj [(''book'', JObj [(''title'', JStr ''1984'')])])
   \<and> loads (snd (query demo_host demo_config new_state ''lib.json'' ''{ book { title } }''))
      = [''./lib.json'', ''./authors/a1.json'']"
  by (simp add: query_def eval_defs processNestedQuery_def in_op_def)

section \<open>Self-referential documents\<close>

text \<open>
  \<open>resolveRef\<close> removes the mark of a reference before it returns, and the expansion
  of the resolved value starts after that: the visited set is empty at every call, so the
  test for a cycle never holds. The expansion of a document that refers to itself ends
  with the depth bound.
\<close>

lemma self_reference_exceeds_depth:
  assumes "fetch h c P = JObj [(key, JObj [(''$ref'', JStr P)])]" and "key \<noteq> ''$ref''"
    and "inherited_object h key = None"
  shows "consistent h c st \<Longrightarrow>
     fst (resolveAllRefs h c st (JObj [(''$ref'', JStr P)]) (Tree (Sel [])) d)
       = Inl MaxDepthExceeded"
proof (induction "nat (maxDepth c + 1 - d)" arbitrary: d st rule: less_induct)
  case less
  let ?ref = "JObj [(''$ref'', JStr P)]"
  let ?doc = "JObj [(key, ?ref)]"
  show ?case
  proof (cases "maxDepth c < d")
    case True
    then show ?thesis by (rule too_deep)
  next
    case d: False
    have step: "fst (resolveAllRefs h c st ?ref (Tree (Sel [])) d)
              = fst (resolveAllRefs h c st ?doc (Tree (Sel [])) (d + 1))"
      using ref_step [OF less.prems, of ?ref d "Tree (Sel [])"] d assms(1) by simp
    show ?thesis
    proof (cases "maxDepth c < d + 1")
      case True
      then show ?thesis using step too_deep by simp
    next
      case False
      have "nat (maxDepth c + 1 - (d + 2)) < nat (maxDepth c + 1 - d)" using False by simp
      from less.hyps [OF this] have inner:
        "fst (resolveAllRefs h c st ?ref (Tree (Sel [])) (d + 2)) = Inl MaxDepthExceeded"
        using less.prems by simp
      have keys: "fst (resolveKeys h c st [(key, ?ref)] (Tree (Sel [])) (d + 2) []) = Inl MaxDepthExceeded"
        using assms(3)
        by (simp add: fst_resolveKeys_cons or_empty_def inner
            del: resolveAllRefs.simps resolveKeys.simps)
      have "fst (resolveAllRefs h c st ?doc (Tree (Sel [])) (d + 1))
          = (case fst (resolveKeys h c st [(key, ?ref)] (Tree (Sel [])) (d + 1 + 1) []) of
               Inl e \<Rightarrow> Inl e | Inr result \<Rightarrow> Inr (JObj result))"
        using False assms(2) by (subst fst_resolveAllRefs_obj) simp
      then have "fst (resolveAllRefs h c st ?doc (Tree (Sel [])) (d + 1)) = Inl MaxDepthExceeded"
        using keys by (simp add: add.assoc del: resolveAllRefs.simps resolveKeys.simps)
      then show ?thesis using step by simp
    qed
  qed
qed

text \<open>
  C1. The query \<open>{ self }\<close> on the document \<open>self.json\<close>, whose key \<open>self\<close> holds a
  reference to \<open>self.json\<close>, terminates, on the engine with the default options, with
  the failure MaxDepthExceeded: neither with a failure for the circular reference nor with
  a value in which the empty object stands for the cyclic reference.
\<close>

theorem self_reference_query:
  "fst (query demo_host demo_config new_state ''self.json'' ''{ self }'') = Inl MaxDepthExceeded
   \<and> maxDepth demo_config = 10
   \<and> visitedRefs (snd (query demo_host demo_config new_state ''self.json'' ''{ self }'')) = {}"
  by (simp add: query_def eval_defs)

section \<open>Projection\<close>

text \<open>
  A selection tree that \<open>processNestedQuery\<close> returns has no key twice: a field that
  is named again replaces the entry of its name.
\<close>

lemma keys_obj_set:
  "map fst (obj_set kvs k v) = (if k \<in> set (map fst kvs) then map fst kvs else map fst kvs @ [k])"
  by (induction kvs) (auto simp: rev_image_eqI)

lemma distinct_obj_set: "distinct (map fst kvs) \<Longrightarrow> distinct (map fst (obj_set kvs k v))"
  by (simp add: keys_obj_set del: set_map)

lemma distinct_processNestedSelections:
  "distinct (map fst result) \<Longrightarrow> distinct (map fst (processNestedSelections selections result))"
  by (induction selections result rule: processNestedSelections.induct)
     (simp_all add: distinct_obj_set)

lemma distinct_processRootSelections:
  "distinct (map fst result) \<Longrightarrow> distinct (map fst (processRootSelections selections result))"
  by (induction selections result rule: processRootSelections.induct)
     (simp_all add: distinct_obj_set)

lemma distinct_processDefinitions:
  "distinct (map fst result) \<Longrightarrow> distinct (map fst (processDefinitions ast result))"
  by (induction ast result rule: processDefinitions.induct)
     (simp_all add: distinct_processRootSelections)

lemma distinct_processNestedQuery:
  "processNestedQuery h queryStr = Inr querySelections \<Longrightarrow> distinct (map fst querySelections)"
  using distinct_processDefinitions [of "[]"]
  by (auto simp: processNestedQuery_def split: option.splits)







end
